theory Spec2Isabelle
  imports Main "HOL-Library.AList"
begin

section \<open>Data model\<close>

text \<open>
  The module \<^verbatim>\<open>src/models.py\<close> with the pydantic classes \<^verbatim>\<open>SearchResults\<close> and
  \<^verbatim>\<open>ScrapedArticle\<close> is not among the sources; the three records below follow the
  spec's data model. The workflow itself only reads \<^verbatim>\<open>.articles\<close> of a result set and
  \<^verbatim>\<open>.url\<close> of a candidate and of a scraped article.
\<close>

text \<open>
  Modelled from the spec: the candidate class of \<^verbatim>\<open>src/models.py\<close>. A source candidate
  has the string fields url, title and summary.
\<close>

record news_article =
  na_url :: string
  na_title :: string
  na_summary :: string

text \<open>
  Modelled from the spec: the class \<^verbatim>\<open>SearchResults\<close> of \<^verbatim>\<open>src/models.py\<close>. A search
  result set is an ordered sequence of candidates, read by the workflow as
  \<^verbatim>\<open>.articles\<close>.
\<close>

record search_results =
  articles :: "news_article list"

text \<open>
  Modelled from the spec: the class \<^verbatim>\<open>ScrapedArticle\<close> of \<^verbatim>\<open>src/models.py\<close>. A scraped
  article has a url (its key in the scraped set), a title and a content body.
\<close>

record scraped_article =
  url :: string
  title :: string
  content :: string

text \<open>
  The session state and the collaborators' responses are dynamically typed in the
  source, and the code tests them with \<^verbatim>\<open>is None\<close>, truthiness and \<^verbatim>\<open>isinstance\<close>.
  The Python values that can occur are a datatype; a \<^verbatim>\<open>dict\<close> keeps insertion order,
  so it is an association list.
\<close>

datatype pyval =
    PyNone
  | PyStr string
  | PyList "pyval list"
  | PyDict "(string \<times> pyval) list"
  | PySearchResults search_results
  | PyScrapedArticle scraped_article

datatype error =
    ValidationError
  | TypeError
  | AttributeError
  | AgentError string

section \<open>Python primitives used by the workflow\<close>

text \<open>Truthiness: \<^verbatim>\<open>None\<close> and empty strings, lists and dicts are false; a model object is true.\<close>

fun truthy :: "pyval \<Rightarrow> bool" where
  "truthy PyNone = False"
| "truthy (PyStr s) = (s \<noteq> [])"
| "truthy (PyList xs) = (xs \<noteq> [])"
| "truthy (PyDict d) = (d \<noteq> [])"
| "truthy (PySearchResults r) = True"
| "truthy (PyScrapedArticle a) = True"

fun is_dict :: "pyval \<Rightarrow> bool" where
  "is_dict (PyDict d) = True"
| "is_dict v = False"

text \<open>\<^verbatim>\<open>len(v)\<close>: defined on strings, lists and dicts; a model object has no length.\<close>

fun py_len :: "pyval \<Rightarrow> error + nat" where
  "py_len (PyStr s) = Inr (length s)"
| "py_len (PyList xs) = Inr (length xs)"
| "py_len (PyDict d) = Inr (length d)"
| "py_len v = Inl TypeError"

fun is_substring :: "string \<Rightarrow> string \<Rightarrow> bool" where
  "is_substring x [] = (x = [])"
| "is_substring x (c # cs) = (take (length x) (c # cs) = x \<or> is_substring x cs)"

text \<open>
  \<^verbatim>\<open>k in v\<close> for a string \<open>k\<close>: key membership in a dict, element membership in a
  list, substring in a string. A pydantic model iterates over (field name, value)
  pairs, none of which equals a string. \<^verbatim>\<open>None\<close> is not iterable.
\<close>

fun py_contains :: "string \<Rightarrow> pyval \<Rightarrow> error + bool" where
  "py_contains k (PyDict d) = Inr (map_of d k \<noteq> None)"
| "py_contains k (PyList xs) = Inr (PyStr k \<in> set xs)"
| "py_contains k (PyStr s) = Inr (is_substring k s)"
| "py_contains k (PySearchResults r) = Inr False"
| "py_contains k (PyScrapedArticle a) = Inr False"
| "py_contains k PyNone = Inl TypeError"

text \<open>
  \<^verbatim>\<open>v[k] = x\<close> for a string key: a dict replaces the entry in place or appends it;
  every other value raises \<^verbatim>\<open>TypeError\<close>.
\<close>

fun py_setitem :: "pyval \<Rightarrow> string \<Rightarrow> pyval \<Rightarrow> error + pyval" where
  "py_setitem (PyDict d) k x = Inr (PyDict (AList.update k x d))"
| "py_setitem v k x = Inl TypeError"

text \<open>\<^verbatim>\<open>v.values()\<close>: the values of a dict in insertion order.\<close>

fun py_values :: "pyval \<Rightarrow> error + pyval list" where
  "py_values (PyDict d) = Inr (map snd d)"
| "py_values v = Inl AttributeError"

text \<open>
  Modelled from the spec: \<^verbatim>\<open>model_dump\<close> of the classes of the missing
  \<^verbatim>\<open>src/models.py\<close>, a plain dict of the fields the spec's data model lists.
\<close>

definition dump_news_article :: "news_article \<Rightarrow> pyval" where
  "dump_news_article a =
     PyDict [(''url'', PyStr (na_url a)), (''title'', PyStr (na_title a)),
             (''summary'', PyStr (na_summary a))]"

text \<open>
  Modelled from the spec: \<^verbatim>\<open>v.model_dump()\<close> for the classes of the missing
  \<^verbatim>\<open>src/models.py\<close>. A value that is no model object has no such method.
\<close>

fun model_dump :: "pyval \<Rightarrow> error + pyval" where
  "model_dump (PyScrapedArticle a) =
     Inr (PyDict [(''url'', PyStr (url a)), (''title'', PyStr (title a)),
                  (''content'', PyStr (content a))])"
| "model_dump (PySearchResults r) =
     Inr (PyDict [(''articles'', PyList (map dump_news_article (articles r)))])"
| "model_dump v = Inl AttributeError"

text \<open>The comprehension \<^verbatim>\<open>[v.model_dump() for v in ...]\<close>; the first failure ends it.\<close>

fun model_dump_all :: "pyval list \<Rightarrow> error + pyval list" where
  "model_dump_all [] = Inr []"
| "model_dump_all (v # vs) =
     (case model_dump v of
        Inl e \<Rightarrow> Inl e
      | Inr d \<Rightarrow> (case model_dump_all vs of Inl e \<Rightarrow> Inl e | Inr ds \<Rightarrow> Inr (d # ds)))"

subsection \<open>Validation\<close>

text \<open>
  \<^verbatim>\<open>model_validate\<close> belongs to the two classes of the missing \<^verbatim>\<open>src/models.py\<close>. An
  object of the class itself is returned as it is; a dict is accepted when every field
  of the class is present with a value of the field's type (keys that are no field are
  ignored); everything else is a validation error.
\<close>

text \<open>The string stored under the key \<open>k\<close>, if there is one.\<close>

fun str_field :: "(string \<times> pyval) list \<Rightarrow> string \<Rightarrow> string option" where
  "str_field d k = (case map_of d k of Some (PyStr s) \<Rightarrow> Some s | _ \<Rightarrow> None)"

text \<open>
  Modelled from the spec: validation of one candidate of the missing \<^verbatim>\<open>src/models.py\<close>,
  a dict with the string fields url, title and summary.
\<close>

fun validate_news_article :: "pyval \<Rightarrow> news_article option" where
  "validate_news_article (PyDict d) =
     (case (str_field d ''url'', str_field d ''title'', str_field d ''summary'') of
        (Some u, Some t, Some s) \<Rightarrow> Some \<lparr>na_url = u, na_title = t, na_summary = s\<rparr>
      | _ \<Rightarrow> None)"
| "validate_news_article v = None"

text \<open>
  Modelled from the spec: validation of the sequence of candidates of a result set of
  the missing \<^verbatim>\<open>src/models.py\<close>, element by element.
\<close>

fun validate_news_articles :: "pyval list \<Rightarrow> news_article list option" where
  "validate_news_articles [] = Some []"
| "validate_news_articles (v # vs) =
     (case validate_news_article v of
        None \<Rightarrow> None
      | Some a \<Rightarrow> (case validate_news_articles vs of None \<Rightarrow> None | Some as \<Rightarrow> Some (a # as)))"

text \<open>
  Modelled from the spec: \<^verbatim>\<open>SearchResults.model_validate\<close> of the missing
  \<^verbatim>\<open>src/models.py\<close>. A \<^verbatim>\<open>SearchResults\<close> object passes unchanged; a dict needs the list
  of candidates under \<^verbatim>\<open>"articles"\<close>.
\<close>

fun SearchResults_model_validate :: "pyval \<Rightarrow> error + search_results" where
  "SearchResults_model_validate (PySearchResults r) = Inr r"
| "SearchResults_model_validate (PyDict d) =
     (case map_of d ''articles'' of
        Some (PyList xs) \<Rightarrow>
          (case validate_news_articles xs of
             Some as \<Rightarrow> Inr \<lparr>articles = as\<rparr>
           | None \<Rightarrow> Inl ValidationError)
      | _ \<Rightarrow> Inl ValidationError)"
| "SearchResults_model_validate v = Inl ValidationError"

text \<open>
  Modelled from the spec: \<^verbatim>\<open>ScrapedArticle.model_validate\<close> of the missing
  \<^verbatim>\<open>src/models.py\<close>. A \<^verbatim>\<open>ScrapedArticle\<close> object passes unchanged; a dict needs the
  string fields url, title and content.
\<close>

fun ScrapedArticle_model_validate :: "pyval \<Rightarrow> error + scraped_article" where
  "ScrapedArticle_model_validate (PyScrapedArticle a) = Inr a"
| "ScrapedArticle_model_validate (PyDict d) =
     (case (str_field d ''url'', str_field d ''title'', str_field d ''content'') of
        (Some u, Some t, Some c) \<Rightarrow> Inr \<lparr>url = u, title = t, content = c\<rparr>
      | _ \<Rightarrow> Inl ValidationError)"
| "ScrapedArticle_model_validate v = Inl ValidationError"

section \<open>Session state\<close>

text \<open>
  \<^verbatim>\<open>self.session_state\<close> is a dict with the keys \<^verbatim>\<open>"blog_posts"\<close>, \<^verbatim>\<open>"search_results"\<close>
  and \<^verbatim>\<open>"scraped_articles"\<close>, each holding a dict from topic to the cached value.
\<close>

type_synonym session_state = "(string \<times> (string \<times> pyval) list) list"

text \<open>\<^verbatim>\<open>self.session_state.get(key, {}).get(topic)\<close>; a missing entry reads as \<^verbatim>\<open>None\<close>.\<close>

definition session_get :: "session_state \<Rightarrow> string \<Rightarrow> string \<Rightarrow> pyval" where
  "session_get s key topic =
     (case map_of s key of
        None \<Rightarrow> PyNone
      | Some d \<Rightarrow> (case map_of d topic of None \<Rightarrow> PyNone | Some v \<Rightarrow> v))"

text \<open>\<^verbatim>\<open>self.session_state.setdefault(key, {}); self.session_state[key][topic] = v\<close>\<close>

definition session_put :: "session_state \<Rightarrow> string \<Rightarrow> string \<Rightarrow> pyval \<Rightarrow> session_state" where
  "session_put s key topic v =
     AList.update key
       (AList.update topic v (case map_of s key of None \<Rightarrow> [] | Some d \<Rightarrow> d)) s"

text \<open>
  The six cache accessors of \<^verbatim>\<open>BlogPostGenerator\<close> (\<^verbatim>\<open>src/src/bloger_workflow.py\<close>,
  lines 118 to 166). The two readers of structured values validate a cached value
  that is a non-empty dict and hand back everything else as it is.
\<close>

definition get_cached_blog_post :: "session_state \<Rightarrow> string \<Rightarrow> pyval" where
  "get_cached_blog_post s topic = session_get s ''blog_posts'' topic"

definition add_blog_post_to_cache :: "session_state \<Rightarrow> string \<Rightarrow> pyval \<Rightarrow> session_state" where
  "add_blog_post_to_cache s topic blog_post = session_put s ''blog_posts'' topic blog_post"

definition get_cached_search_results :: "session_state \<Rightarrow> string \<Rightarrow> error + pyval" where
  "get_cached_search_results s topic =
     (let search_results = session_get s ''search_results'' topic
      in if truthy search_results \<and> is_dict search_results
         then (case SearchResults_model_validate search_results of
                 Inl e \<Rightarrow> Inl e
               | Inr r \<Rightarrow> Inr (PySearchResults r))
         else Inr search_results)"

definition add_search_results_to_cache ::
  "session_state \<Rightarrow> string \<Rightarrow> pyval \<Rightarrow> session_state" where
  "add_search_results_to_cache s topic search_results =
     session_put s ''search_results'' topic search_results"

definition get_cached_scraped_articles :: "session_state \<Rightarrow> string \<Rightarrow> error + pyval" where
  "get_cached_scraped_articles s topic =
     (let scraped_articles = session_get s ''scraped_articles'' topic
      in if truthy scraped_articles \<and> is_dict scraped_articles
         then (case ScrapedArticle_model_validate scraped_articles of
                 Inl e \<Rightarrow> Inl e
               | Inr a \<Rightarrow> Inr (PyScrapedArticle a))
         else Inr scraped_articles)"

definition add_scraped_articles_to_cache ::
  "session_state \<Rightarrow> string \<Rightarrow> pyval \<Rightarrow> session_state" where
  "add_scraped_articles_to_cache s topic scraped_articles =
     session_put s ''scraped_articles'' topic scraped_articles"

section \<open>Collaborators\<close>

text \<open>
  The three agents are external. Each call is recorded in a trace, and an agent's
  answer may depend on the calls made before it. \<^verbatim>\<open>Agent.run\<close> either raises or returns
  a response: \<open>None\<close> is the response \<^verbatim>\<open>None\<close>, \<open>Some c\<close> a response with content
  \<open>c\<close>. The writer is given the payload that \<^verbatim>\<open>json.dumps\<close> serialises; it streams
  chunks and then either raises or leaves its final \<^verbatim>\<open>run_response.content\<close>.
\<close>

datatype call =
    SearchCall string
  | ScrapeCall string
  | WriteCall pyval

record agents =
  searcher_run :: "call list \<Rightarrow> string \<Rightarrow> error + pyval option"
  article_scraper_run :: "call list \<Rightarrow> string \<Rightarrow> error + pyval option"
  writer_run :: "call list \<Rightarrow> pyval \<Rightarrow> pyval list \<times> (error + pyval)"

section \<open>Search stage\<close>

text \<open>
  \<^verbatim>\<open>get_search_results\<close> (lines 168 to 226). Every function of a stage takes the
  session state \<open>s\<close> and the trace \<open>tr\<close> of the collaborator calls made so far and
  returns them updated.
\<close>

text \<open>
  The \<^verbatim>\<open>try\<close> block of \<^verbatim>\<open>get_search_results\<close> that reads the cache: \<open>Some r\<close> when it
  returns \<open>r\<close>, \<open>None\<close> when the entry is \<^verbatim>\<open>None\<close> or an exception was caught.
\<close>

definition search_results_from_cache :: "session_state \<Rightarrow> string \<Rightarrow> search_results option" where
  "search_results_from_cache s topic =
     (case get_cached_search_results s topic of
        Inl e \<Rightarrow> None
      | Inr v \<Rightarrow>
          (if v \<noteq> PyNone
           then (case SearchResults_model_validate v of Inl e \<Rightarrow> None | Inr r \<Rightarrow> Some r)
           else None))"

text \<open>
  The test on the searcher's answer: the call did not raise, the response is not
  \<^verbatim>\<open>None\<close>, its content is not \<^verbatim>\<open>None\<close> and is a \<^verbatim>\<open>SearchResults\<close> object.
\<close>

fun search_content :: "error + pyval option \<Rightarrow> search_results option" where
  "search_content (Inr (Some (PySearchResults r))) = Some r"
| "search_content resp = None"

text \<open>
  The loop \<^verbatim>\<open>for attempt in range(num_attempts)\<close>, by the number of attempts left. An
  exception of the searcher and a response of the wrong shape both go on to the next
  attempt.
\<close>

fun search_attempts ::
  "agents \<Rightarrow> string \<Rightarrow> nat \<Rightarrow> session_state \<Rightarrow> call list
     \<Rightarrow> search_results option \<times> session_state \<times> call list" where
  "search_attempts ag topic 0 s tr = (None, s, tr)"
| "search_attempts ag topic (Suc n) s tr =
     (case search_content (searcher_run ag tr topic) of
        Some r \<Rightarrow>
          (Some r, add_search_results_to_cache s topic (PySearchResults r),
           tr @ [SearchCall topic])
      | None \<Rightarrow> search_attempts ag topic n s (tr @ [SearchCall topic]))"

definition get_search_results ::
  "agents \<Rightarrow> session_state \<Rightarrow> call list \<Rightarrow> string \<Rightarrow> bool \<Rightarrow> nat
     \<Rightarrow> search_results option \<times> session_state \<times> call list" where
  "get_search_results ag s tr topic use_search_cache num_attempts =
     (case (if use_search_cache then search_results_from_cache s topic else None) of
        Some r \<Rightarrow> (Some r, s, tr)
      | None \<Rightarrow> search_attempts ag topic num_attempts s tr)"

section \<open>Scrape stage\<close>

text \<open>
  \<^verbatim>\<open>scrape_articles\<close> (lines 228 to 278): the \<^verbatim>\<open>try\<close> block that reads the cache. \<open>Inl v\<close>: the function
  returns \<open>v\<close>. \<open>Inr v\<close>: it goes on to the loop with the local \<^verbatim>\<open>scraped_articles\<close>
  equal to \<open>v\<close>, which is the empty dict unless \<^verbatim>\<open>len\<close> raised after the assignment.
\<close>

definition scraped_articles_from_cache :: "session_state \<Rightarrow> string \<Rightarrow> pyval + pyval" where
  "scraped_articles_from_cache s topic =
     (case get_cached_scraped_articles s topic of
        Inl e \<Rightarrow> Inr (PyDict [])
      | Inr v \<Rightarrow>
          (if v \<noteq> PyNone
           then (case py_len v of Inl e \<Rightarrow> Inr v | Inr n \<Rightarrow> Inl v)
           else Inr (PyDict [])))"

text \<open>
  The test on the scraper's answer: the response is not \<^verbatim>\<open>None\<close>, its content is not
  \<^verbatim>\<open>None\<close> and is a \<^verbatim>\<open>ScrapedArticle\<close> object.
\<close>

fun scrape_content :: "pyval option \<Rightarrow> scraped_article option" where
  "scrape_content (Some (PyScrapedArticle c)) = Some c"
| "scrape_content resp = None"

text \<open>
  The loop over \<^verbatim>\<open>search_results.articles\<close>. The scraper call is not inside a
  \<^verbatim>\<open>try\<close>: an exception ends the loop and leaves the function.
\<close>

fun scrape_loop ::
  "agents \<Rightarrow> news_article list \<Rightarrow> pyval \<Rightarrow> call list \<Rightarrow> (error + pyval) \<times> call list" where
  "scrape_loop ag [] scraped tr = (Inr scraped, tr)"
| "scrape_loop ag (article # rest) scraped tr =
     (case py_contains (na_url article) scraped of
        Inl e \<Rightarrow> (Inl e, tr)
      | Inr True \<Rightarrow> scrape_loop ag rest scraped tr
      | Inr False \<Rightarrow>
          (case article_scraper_run ag tr (na_url article) of
             Inl e \<Rightarrow> (Inl e, tr @ [ScrapeCall (na_url article)])
           | Inr resp \<Rightarrow>
               (case scrape_content resp of
                  Some c \<Rightarrow>
                    (case py_setitem scraped (url c) (PyScrapedArticle c) of
                       Inl e \<Rightarrow> (Inl e, tr @ [ScrapeCall (na_url article)])
                     | Inr scraped' \<Rightarrow>
                         scrape_loop ag rest scraped' (tr @ [ScrapeCall (na_url article)]))
                | None \<Rightarrow>
                    scrape_loop ag rest scraped (tr @ [ScrapeCall (na_url article)]))))"

definition scrape_articles ::
  "agents \<Rightarrow> session_state \<Rightarrow> call list \<Rightarrow> string \<Rightarrow> search_results \<Rightarrow> bool
     \<Rightarrow> (error + pyval) \<times> session_state \<times> call list" where
  "scrape_articles ag s tr topic search_results use_scrape_cache =
     (case (if use_scrape_cache then scraped_articles_from_cache s topic
            else Inr (PyDict [])) of
        Inl cached \<Rightarrow> (Inr cached, s, tr)
      | Inr scraped \<Rightarrow>
          (case scrape_loop ag (articles search_results) scraped tr of
             (Inl e, tr') \<Rightarrow> (Inl e, s, tr')
           | (Inr scraped', tr') \<Rightarrow>
               (Inr scraped', add_scraped_articles_to_cache s topic scraped', tr')))"

section \<open>The workflow\<close>

text \<open>
  \<^verbatim>\<open>run\<close> (lines 65 to 116) is a generator. It calls \<^verbatim>\<open>get_search_results\<close> with the
  default of three attempts. Its result is the sequence of events it yields when consumed
  to the end, the exception that ended it if any, the session state and the trace.
\<close>

datatype event =
    WorkflowCompletedEvent pyval
  | WriterResponse pyval

text \<open>
  The dict built for the writer, \<^verbatim>\<open>{"topic": ..., "articles": [...]}\<close>, before
  \<^verbatim>\<open>json.dumps\<close> turns it into text.
\<close>

definition writer_input :: "string \<Rightarrow> pyval \<Rightarrow> error + pyval" where
  "writer_input topic scraped_articles =
     (case py_values scraped_articles of
        Inl e \<Rightarrow> Inl e
      | Inr vs \<Rightarrow>
          (case model_dump_all vs of
             Inl e \<Rightarrow> Inl e
           | Inr ds \<Rightarrow> Inr (PyDict [(''topic'', PyStr topic), (''articles'', PyList ds)])))"

definition not_found_message :: "string \<Rightarrow> string" where
  "not_found_message topic = ''Sorry, could not find any articles on the topic: '' @ topic"

definition run ::
  "agents \<Rightarrow> session_state \<Rightarrow> call list \<Rightarrow> string \<Rightarrow> bool \<Rightarrow> bool \<Rightarrow> bool
     \<Rightarrow> (event list \<times> error option) \<times> session_state \<times> call list" where
  "run ag s tr topic use_search_cache use_scrape_cache use_cached_report =
     (if use_cached_report \<and> truthy (get_cached_blog_post s topic)
      then (([WorkflowCompletedEvent (get_cached_blog_post s topic)], None), s, tr)
      else
        (case get_search_results ag s tr topic use_search_cache 3 of
           (None, s1, tr1) \<Rightarrow>
             (([WorkflowCompletedEvent (PyStr (not_found_message topic))], None), s1, tr1)
         | (Some search_results, s1, tr1) \<Rightarrow>
             (if length (articles search_results) = 0
              then (([WorkflowCompletedEvent (PyStr (not_found_message topic))], None),
                    s1, tr1)
              else
                (case scrape_articles ag s1 tr1 topic search_results use_scrape_cache of
                   (Inl e, s2, tr2) \<Rightarrow> (([], Some e), s2, tr2)
                 | (Inr scraped_articles, s2, tr2) \<Rightarrow>
                     (case writer_input topic scraped_articles of
                        Inl e \<Rightarrow> (([], Some e), s2, tr2)
                      | Inr inp \<Rightarrow>
                          (case writer_run ag tr2 inp of
                             (chunks, Inl e) \<Rightarrow>
                               ((map WriterResponse chunks, Some e), s2,
                                tr2 @ [WriteCall inp])
                           | (chunks, Inr final) \<Rightarrow>
                               ((map WriterResponse chunks, None),
                                add_blog_post_to_cache s2 topic final,
                                tr2 @ [WriteCall inp])))))))"

section \<open>Concrete collaborators and inputs\<close>

text \<open>Small inputs on which the workflow is evaluated.\<close>

definition cand1 :: news_article where
  "cand1 = \<lparr>na_url = ''u1'', na_title = ''One'', na_summary = ''first''\<rparr>"

definition cand2 :: news_article where
  "cand2 = \<lparr>na_url = ''u2'', na_title = ''Two'', na_summary = ''second''\<rparr>"

definition art1 :: scraped_article where
  "art1 = \<lparr>url = ''u1'', title = ''One'', content = ''body''\<rparr>"

text \<open>A scraper that succeeds on every URL and reports the URL it was given.\<close>

definition echo_scraper :: "call list \<Rightarrow> string \<Rightarrow> error + pyval option" where
  "echo_scraper h u = Inr (Some (PyScrapedArticle \<lparr>url = u, title = ''t'', content = ''body''\<rparr>))"

definition const_writer :: "call list \<Rightarrow> pyval \<Rightarrow> pyval list \<times> (error + pyval)" where
  "const_writer h inp = ([PyStr ''# Post''], Inr (PyStr ''# Post''))"

text \<open>Search finds two candidates; scraping and writing succeed.\<close>

definition agents_ok :: agents where
  "agents_ok =
     \<lparr>searcher_run = (\<lambda>h t. Inr (Some (PySearchResults \<lparr>articles = [cand1, cand2]\<rparr>))),
      article_scraper_run = echo_scraper,
      writer_run = const_writer\<rparr>"

text \<open>
  The searcher raises on the first attempt, answers with unstructured text on the
  second and with an empty result set on the third.
\<close>

definition agents_flaky_search :: agents where
  "agents_flaky_search =
     \<lparr>searcher_run = (\<lambda>h t.
        if length h = 0 then Inl (AgentError ''timeout'')
        else if length h = 1 then Inr (Some (PyStr ''no structured output''))
        else Inr (Some (PySearchResults \<lparr>articles = []\<rparr>))),
      article_scraper_run = echo_scraper,
      writer_run = const_writer\<rparr>"

text \<open>The searcher raises on every attempt.\<close>

definition agents_search_down :: agents where
  "agents_search_down =
     \<lparr>searcher_run = (\<lambda>h t. Inl (AgentError ''timeout'')),
      article_scraper_run = echo_scraper,
      writer_run = const_writer\<rparr>"

text \<open>The scraper answers every URL with a response that has no content.\<close>

definition agents_scraper_empty :: agents where
  "agents_scraper_empty =
     \<lparr>searcher_run = (\<lambda>h t. Inr (Some (PySearchResults \<lparr>articles = [cand1, cand1]\<rparr>))),
      article_scraper_run = (\<lambda>h u. Inr (Some PyNone)),
      writer_run = const_writer\<rparr>"

text \<open>The scraper raises on every URL.\<close>

definition agents_scraper_raises :: agents where
  "agents_scraper_raises =
     \<lparr>searcher_run = (\<lambda>h t. Inr (Some (PySearchResults \<lparr>articles = [cand1, cand2]\<rparr>))),
      article_scraper_run = (\<lambda>h u. Inl (AgentError ''connection reset'')),
      writer_run = const_writer\<rparr>"

text \<open>The scraper reports the canonical URL \<open>u1\<close> whatever URL it was given.\<close>

definition agents_redirect :: agents where
  "agents_redirect =
     \<lparr>searcher_run = (\<lambda>h t. Inr (Some (PySearchResults \<lparr>articles = [cand2]\<rparr>))),
      article_scraper_run = (\<lambda>h u. Inr (Some (PyScrapedArticle art1))),
      writer_run = const_writer\<rparr>"

text \<open>A session state that holds one scraped article for the topic \<open>T\<close>.\<close>

definition session_one_scraped :: session_state where
  "session_one_scraped =
     [(''scraped_articles'', [(''T'', PyDict [(''u1'', PyScrapedArticle art1)])])]"

text \<open>A session state that holds a post for the topic \<open>T\<close>.\<close>

definition session_with_post :: session_state where
  "session_with_post = [(''blog_posts'', [(''T'', PyStr ''# Cached'')])]"

text \<open>A session state whose cached post for the topic \<open>T\<close> is the empty text.\<close>

definition session_empty_post :: session_state where
  "session_empty_post = [(''blog_posts'', [(''T'', PyStr [])])]"

section \<open>Properties of the session store\<close>

lemma session_get_put_same: "session_get (session_put s key topic v) key topic = v"
  by (simp add: session_get_def session_put_def update_conv')

lemma session_get_put_other_topic:
  "t \<noteq> topic \<Longrightarrow> session_get (session_put s key topic v) key t = session_get s key t"
  by (simp add: session_get_def session_put_def update_conv' split: option.splits)

lemma map_of_session_put_other:
  "key' \<noteq> key \<Longrightarrow> map_of (session_put s key topic v) key' = map_of s key'"
  by (simp add: session_put_def update_conv')

text \<open>A cached post and a cached search result set are read back as they were stored.\<close>

lemma blog_post_round_trip:
  "get_cached_blog_post (add_blog_post_to_cache s topic post) topic = post"
  by (simp add: get_cached_blog_post_def add_blog_post_to_cache_def session_get_put_same)

lemma search_results_round_trip:
  "get_cached_search_results (add_search_results_to_cache s topic (PySearchResults r)) topic
     = Inr (PySearchResults r)"
  by (simp add: get_cached_search_results_def add_search_results_to_cache_def
      session_get_put_same)

text \<open>
  A dict whose values are all \<^verbatim>\<open>ScrapedArticle\<close> objects has no string under the key
  \<^verbatim>\<open>"url"\<close>, so it never validates as one \<^verbatim>\<open>ScrapedArticle\<close>.
\<close>

lemma str_field_of_articles:
  assumes "\<forall>v \<in> snd ` set d. \<exists>a. v = PyScrapedArticle a"
  shows "str_field d k = None"
proof (cases "map_of d k")
  case None
  then show ?thesis by simp
next
  case (Some v)
  then have "v \<in> snd ` set d"
    by (metis image_eqI map_of_SomeD snd_conv)
  then obtain a where "v = PyScrapedArticle a" using assms by blast
  with Some show ?thesis by simp
qed

lemma article_set_does_not_validate:
  assumes "\<forall>v \<in> snd ` set d. \<exists>a. v = PyScrapedArticle a"
  shows "ScrapedArticle_model_validate (PyDict d) = Inl ValidationError"
  using str_field_of_articles[OF assms] by (simp del: str_field.simps)

lemma cached_article_set_raises:
  assumes "d \<noteq> []" and "\<forall>v \<in> snd ` set d. \<exists>a. v = PyScrapedArticle a"
  shows "get_cached_scraped_articles (add_scraped_articles_to_cache s topic (PyDict d)) topic
           = Inl ValidationError"
  using assms(1) article_set_does_not_validate[OF assms(2)]
  by (simp add: get_cached_scraped_articles_def add_scraped_articles_to_cache_def
      session_get_put_same)

lemma empty_article_set_round_trip:
  "get_cached_scraped_articles (add_scraped_articles_to_cache s topic (PyDict [])) topic
     = Inr (PyDict [])"
  by (simp add: get_cached_scraped_articles_def add_scraped_articles_to_cache_def
      session_get_put_same)

text \<open>
  Claim C3. Caching and then retrieving a value under the same topic gives back the
  stored value for posts and search results (the two lemmas above), but not for a set
  of scraped articles: \<^verbatim>\<open>get_cached_scraped_articles\<close> validates the whole url-keyed
  dict as a single \<^verbatim>\<open>ScrapedArticle\<close>, which raises for every non-empty set. Here the
  set holding the one article \<open>art1\<close> is stored and the read raises.
\<close>

theorem scraped_articles_round_trip_raises:
  "get_cached_scraped_articles
     (add_scraped_articles_to_cache s topic (PyDict [(''u1'', PyScrapedArticle art1)])) topic
     = Inl ValidationError"
  by (rule cached_article_set_raises) simp_all

section \<open>Properties of the search stage\<close>

lemma search_attempts_trace:
  "\<exists>k\<le>n. snd (snd (search_attempts ag topic n s tr)) = tr @ replicate k (SearchCall topic)"
proof (induction n arbitrary: tr)
  case 0
  then show ?case by simp
next
  case (Suc n)
  obtain k where k: "k \<le> n"
    "snd (snd (search_attempts ag topic n s (tr @ [SearchCall topic])))
       = (tr @ [SearchCall topic]) @ replicate k (SearchCall topic)"
    using Suc.IH by blast
  have rec: "\<exists>j\<le>Suc n. snd (snd (search_attempts ag topic n s (tr @ [SearchCall topic])))
       = tr @ replicate j (SearchCall topic)"
    using k by (intro exI[of _ "Suc k"]) simp
  have one: "\<exists>j\<le>Suc n. tr @ [SearchCall topic] = tr @ replicate j (SearchCall topic)"
    by (intro exI[of _ "Suc 0"]) simp
  show ?case
    using rec one by (simp split: option.split)
qed

lemma search_attempts_None:
  "search_attempts ag topic n s tr = (None, s', tr') \<Longrightarrow> s' = s"
  by (induction n arbitrary: tr) (auto split: option.splits)

lemma search_attempts_state:
  "search_attempts ag topic n s tr = (res, s', tr') \<Longrightarrow>
     s' = s \<or> (\<exists>r. s' = add_search_results_to_cache s topic (PySearchResults r))"
  by (induction n arbitrary: tr) (auto split: option.splits)


lemma get_search_results_trace:
  "\<exists>k\<le>n. snd (snd (get_search_results ag s tr topic usc n))
            = tr @ replicate k (SearchCall topic)"
proof (cases "(if usc then search_results_from_cache s topic else None)")
  case None
  then show ?thesis
    using search_attempts_trace[of n ag topic s tr] by (simp add: get_search_results_def)
next
  case (Some r)
  then show ?thesis
    by (intro exI[of _ 0]) (simp add: get_search_results_def)
qed

lemma get_search_results_state:
  "get_search_results ag s tr topic usc n = (res, s', tr') \<Longrightarrow>
     s' = s \<or> (\<exists>r. s' = add_search_results_to_cache s topic (PySearchResults r))"
  by (auto simp: get_search_results_def split: option.splits if_splits
      dest: search_attempts_state)



text \<open>
  Claim C9. When \<^verbatim>\<open>get_search_results\<close> returns \<^verbatim>\<open>None\<close>, the session state is the one
  it was called with: a failed search writes nothing to the cache.
\<close>

theorem get_search_results_failure_not_cached:
  "get_search_results ag s tr topic usc n = (None, s', tr') \<Longrightarrow> s' = s"
  by (auto simp: get_search_results_def split: option.splits if_splits
      dest: search_attempts_None)

theorem get_search_results_failure_not_cached_witness:
  "get_search_results agents_search_down session_empty_post [] ''T'' True 3
     = (None, session_empty_post, [SearchCall ''T'', SearchCall ''T'', SearchCall ''T''])"
proof -
  have run: "get_search_results agents_search_down session_empty_post [] ''T'' True 3
     = (None, fst (snd (get_search_results agents_search_down session_empty_post [] ''T'' True 3)),
        [SearchCall ''T'', SearchCall ''T'', SearchCall ''T''])"
    by code_simp
  from get_search_results_failure_not_cached[OF run] run show ?thesis
    by simp
qed

section \<open>Properties of the scrape stage\<close>

subsection \<open>The cache read\<close>

text \<open>An empty cached set is a hit: it is returned and nothing is scraped.\<close>

lemma scrape_articles_empty_cache_hit:
  assumes "session_get s ''scraped_articles'' topic = PyDict []"
  shows "scrape_articles ag s tr topic sr True = (Inr (PyDict []), s, tr)"
  using assms
  by (simp add: scrape_articles_def scraped_articles_from_cache_def
      get_cached_scraped_articles_def)

text \<open>
  Claim C1. A cached set of \<open>M\<close> articles is to be returned unchanged, with no scraper
  call, when there are \<open>N > M\<close> candidates. The code does so only for \<open>M = 0\<close>. Here
  the cache holds the one article \<open>art1\<close> for the topic and the search found two
  candidates: reading the cache raises inside \<^verbatim>\<open>get_cached_scraped_articles\<close> (see
  \<open>cached_article_set_raises\<close>), the exception is caught as a cache miss, both URLs are
  scraped, and the cached set is overwritten by the two fresh articles.
\<close>

theorem scrape_articles_cached_set_rescraped:
  "session_get session_one_scraped ''scraped_articles'' ''T''
     = PyDict [(''u1'', PyScrapedArticle art1)]
   \<and> scrape_articles agents_ok session_one_scraped [] ''T'' \<lparr>articles = [cand1, cand2]\<rparr> True
     = (Inr (PyDict
          [(''u1'', PyScrapedArticle \<lparr>url = ''u1'', title = ''t'', content = ''body''\<rparr>),
           (''u2'', PyScrapedArticle \<lparr>url = ''u2'', title = ''t'', content = ''body''\<rparr>)]),
        [(''scraped_articles'',
          [(''T'', PyDict
             [(''u1'', PyScrapedArticle \<lparr>url = ''u1'', title = ''t'', content = ''body''\<rparr>),
              (''u2'', PyScrapedArticle \<lparr>url = ''u2'', title = ''t'', content = ''body''\<rparr>)])])],
        [ScrapeCall ''u1'', ScrapeCall ''u2''])"
  by code_simp

subsection \<open>Failures of the scraper\<close>

text \<open>
  A response without a \<^verbatim>\<open>ScrapedArticle\<close> is skipped and the loop goes on; an exception
  of the scraper ends the loop.
\<close>

lemma scrape_loop_skips_bad_response:
  assumes "py_contains (na_url a) scraped = Inr False"
    and "article_scraper_run ag tr (na_url a) = Inr resp"
    and "scrape_content resp = None"
  shows "scrape_loop ag (a # rest) scraped tr
           = scrape_loop ag rest scraped (tr @ [ScrapeCall (na_url a)])"
  using assms by simp

lemma scrape_loop_raise_aborts:
  assumes "py_contains (na_url a) scraped = Inr False"
    and "article_scraper_run ag tr (na_url a) = Inl e"
  shows "scrape_loop ag (a # rest) scraped tr = (Inl e, tr @ [ScrapeCall (na_url a)])"
  using assms by simp

text \<open>
  Claim C2. A failed scrape is to be dropped without aborting the run. That holds for
  a response of the wrong shape (\<open>scrape_loop_skips_bad_response\<close>). An exception
  raised by the scraper is not caught, unlike one raised by the searcher: here the
  scraper raises on the first of two candidates, and \<^verbatim>\<open>scrape_articles\<close> and \<^verbatim>\<open>run\<close>
  end with that exception, the second candidate is never requested, and no scraped
  set is cached.
\<close>

theorem scrape_articles_exception_aborts:
  "scrape_articles agents_scraper_raises [] [] ''T'' \<lparr>articles = [cand1, cand2]\<rparr> True
     = (Inl (AgentError ''connection reset''), [], [ScrapeCall ''u1''])
   \<and> run agents_scraper_raises [] [] ''T'' True True True
     = (([], Some (AgentError ''connection reset'')),
        [(''search_results'', [(''T'', PySearchResults \<lparr>articles = [cand1, cand2]\<rparr>)])],
        [SearchCall ''T'', ScrapeCall ''u1''])"
  by code_simp

subsection \<open>Requests per URL\<close>

lemma py_setitem_Inr:
  "py_setitem v k x = Inr v' \<Longrightarrow> \<exists>d. v = PyDict d \<and> v' = PyDict (AList.update k x d)"
  by (cases v) auto

lemma py_contains_setitem:
  "py_contains u v = Inr True \<Longrightarrow> py_setitem v k x = Inr v' \<Longrightarrow> py_contains u v' = Inr True"
  by (cases v) (auto simp: update_conv')

lemma py_contains_setitem_same:
  "py_setitem v k x = Inr v' \<Longrightarrow> py_contains k v' = Inr True"
  by (cases v) (auto simp: update_conv')

lemma scrape_loop_stored_not_requested:
  "py_contains u scraped = Inr True \<Longrightarrow>
     count_list (snd (scrape_loop ag as scraped tr)) (ScrapeCall u) = count_list tr (ScrapeCall u)"
proof (induction as arbitrary: scraped tr)
  case Nil
  then show ?case by simp
next
  case (Cons a rest)
  show ?case
  proof (cases "py_contains (na_url a) scraped")
    case (Inl e)
    then show ?thesis by simp
  next
    case (Inr b)
    show ?thesis
    proof (cases b)
      case True
      with Inr Cons show ?thesis by simp
    next
      case False
      with Inr Cons.prems have ne: "na_url a \<noteq> u" by auto
      show ?thesis
      proof (cases "article_scraper_run ag tr (na_url a)")
        case (Inl e)
        with Inr False ne show ?thesis by simp
      next
        case resp: (Inr resp)
        show ?thesis
        proof (cases "scrape_content resp")
          case None
          with Inr False ne resp Cons.IH[OF Cons.prems, of "tr @ [ScrapeCall (na_url a)]"]
          show ?thesis by simp
        next
          case (Some c)
          show ?thesis
          proof (cases "py_setitem scraped (url c) (PyScrapedArticle c)")
            case (Inl e)
            with Inr False ne resp Some show ?thesis by simp
          next
            case set: (Inr scraped')
            have "py_contains u scraped' = Inr True"
              using Cons.prems set by (rule py_contains_setitem)
            from Cons.IH[OF this, of "tr @ [ScrapeCall (na_url a)]"]
            show ?thesis using Inr False ne resp Some set by simp
          qed
        qed
      qed
    qed
  qed
qed

lemma scrape_loop_once:
  assumes H: "\<forall>h. \<exists>c. article_scraper_run ag h u = Inr (Some (PyScrapedArticle c)) \<and> url c = u"
  shows "count_list (snd (scrape_loop ag as scraped tr)) (ScrapeCall u)
           \<le> count_list tr (ScrapeCall u) + 1"
proof (induction as arbitrary: scraped tr)
  case Nil
  then show ?case by simp
next
  case (Cons a rest)
  show ?case
  proof (cases "py_contains (na_url a) scraped")
    case (Inl e)
    then show ?thesis by simp
  next
    case (Inr b)
    show ?thesis
    proof (cases b)
      case True
      with Inr Cons.IH[of scraped tr] show ?thesis by simp
    next
      case False
      show ?thesis
      proof (cases "na_url a = u")
        case same: True
        obtain c where c: "article_scraper_run ag tr u = Inr (Some (PyScrapedArticle c))" "url c = u"
          using H by blast
        show ?thesis
        proof (cases "py_setitem scraped u (PyScrapedArticle c)")
          case (Inl e)
          with Inr False same c show ?thesis by simp
        next
          case set: (Inr scraped')
          have "py_contains u scraped' = Inr True"
            using set by (rule py_contains_setitem_same)
          from scrape_loop_stored_not_requested[OF this, of ag rest "tr @ [ScrapeCall u]"]
          show ?thesis using Inr False same c set by simp
        qed
      next
        case other: False
        show ?thesis
        proof (cases "article_scraper_run ag tr (na_url a)")
          case (Inl e)
          with Inr False other show ?thesis by simp
        next
          case resp: (Inr resp)
          show ?thesis
          proof (cases "scrape_content resp")
            case None
            with Inr False other resp Cons.IH[of scraped "tr @ [ScrapeCall (na_url a)]"]
            show ?thesis by simp
          next
            case (Some c)
            show ?thesis
            proof (cases "py_setitem scraped (url c) (PyScrapedArticle c)")
              case (Inl e)
              with Inr False other resp Some show ?thesis by simp
            next
              case set: (Inr scraped')
              from Cons.IH[of scraped' "tr @ [ScrapeCall (na_url a)]"]
              show ?thesis using Inr False other resp Some set by simp
            qed
          qed
        qed
      qed
    qed
  qed
qed

lemma scrape_articles_trace:
  "snd (snd (scrape_articles ag s tr topic sr usc)) = tr \<or>
   (\<exists>scraped. snd (snd (scrape_articles ag s tr topic sr usc))
       = snd (scrape_loop ag (articles sr) scraped tr))"
proof (cases "if usc then scraped_articles_from_cache s topic else Inr (PyDict [])")
  case (Inl cached)
  then show ?thesis by (simp add: scrape_articles_def)
next
  case (Inr scraped)
  then have "snd (snd (scrape_articles ag s tr topic sr usc))
       = snd (scrape_loop ag (articles sr) scraped tr)"
    by (simp add: scrape_articles_def split: prod.split sum.split)
  then show ?thesis by blast
qed

text \<open>
  Claim C7, as stated, fails: a URL is skipped only when it is a key of the set built
  so far, and a failed scrape adds no key. Two candidates share the URL \<open>u1\<close>, the
  scraper answers without content, and \<open>u1\<close> is requested twice.
\<close>

theorem scrape_articles_duplicate_url_counterexample:
  "na_url cand1 = ''u1''
   \<and> count_list
        (snd (snd (scrape_articles agents_scraper_empty [] [] ''T''
                     \<lparr>articles = [cand1, cand1]\<rparr> False)))
        (ScrapeCall ''u1'') = 2"
  by code_simp

text \<open>
  Claim C7, amended. When the scraper answers every request for the URL \<open>u\<close> with an
  article that reports \<open>u\<close> as its URL, one call of \<^verbatim>\<open>scrape_articles\<close> requests \<open>u\<close>
  at most once, however often \<open>u\<close> occurs among the candidates.
\<close>

theorem scrape_articles_once_per_stored_url:
  assumes "\<forall>h. \<exists>c. article_scraper_run ag h u = Inr (Some (PyScrapedArticle c)) \<and> url c = u"
  shows "count_list (snd (snd (scrape_articles ag s tr topic sr usc))) (ScrapeCall u)
           \<le> count_list tr (ScrapeCall u) + 1"
  using scrape_articles_trace[of ag s tr topic sr usc] scrape_loop_once[OF assms]
  by auto

theorem scrape_articles_once_per_stored_url_witness:
  "snd (snd (scrape_articles agents_ok [] [] ''T'' \<lparr>articles = [cand1, cand1]\<rparr> False))
     = [ScrapeCall ''u1'']
   \<and> count_list
        (snd (snd (scrape_articles agents_ok [] [] ''T'' \<lparr>articles = [cand1, cand1]\<rparr> False)))
        (ScrapeCall ''u1'') \<le> 1"
proof -
  have answers: "\<forall>h. \<exists>c. article_scraper_run agents_ok h ''u1''
                     = Inr (Some (PyScrapedArticle c)) \<and> url c = ''u1''"
    by (simp add: agents_ok_def echo_scraper_def)
  have trace: "snd (snd (scrape_articles agents_ok [] [] ''T''
                           \<lparr>articles = [cand1, cand1]\<rparr> False)) = [ScrapeCall ''u1'']"
    by code_simp
  from scrape_articles_once_per_stored_url[OF answers, of "[]" "[]" "''T''"
      "\<lparr>articles = [cand1, cand1]\<rparr>" False] trace
  show ?thesis by simp
qed

subsection \<open>Keys of the scraped set\<close>

lemma update_entries: "set (AList.update k v d) \<subseteq> insert (k, v) (set d)"
  by (induction d) auto

lemma scrape_content_Some:
  "scrape_content resp = Some c \<Longrightarrow> resp = Some (PyScrapedArticle c)"
  by (cases resp rule: scrape_content.cases) auto

text \<open>
  An invariant rule for the loop started on a dict: a property of the candidates
  handled so far, the trace and the set built so far holds at the end when it holds
  at the start and each of the three ways through the loop body keeps it: the
  candidate's URL is already a key; the scraper is called and gives no article; the
  scraper is called and its article is stored under the URL the article reports.
\<close>

lemma scrape_loop_invariant:
  assumes "scrape_loop ag as (PyDict d) cur = (Inr v, tr')"
    and "I seen cur d"
    and skip: "\<And>seen cur d a. I seen cur d \<Longrightarrow> map_of d (na_url a) \<noteq> None
                 \<Longrightarrow> I (seen @ [a]) cur d"
    and miss: "\<And>seen cur d a resp. I seen cur d \<Longrightarrow> map_of d (na_url a) = None
                 \<Longrightarrow> article_scraper_run ag cur (na_url a) = Inr resp
                 \<Longrightarrow> scrape_content resp = None
                 \<Longrightarrow> I (seen @ [a]) (cur @ [ScrapeCall (na_url a)]) d"
    and store: "\<And>seen cur d a c. I seen cur d \<Longrightarrow> map_of d (na_url a) = None
                 \<Longrightarrow> article_scraper_run ag cur (na_url a) = Inr (Some (PyScrapedArticle c))
                 \<Longrightarrow> I (seen @ [a]) (cur @ [ScrapeCall (na_url a)])
                       (AList.update (url c) (PyScrapedArticle c) d)"
  shows "\<exists>d'. v = PyDict d' \<and> I (seen @ as) tr' d'"
  using assms(1,2)
proof (induction as arbitrary: d cur seen)
  case Nil
  then show ?case by auto
next
  case (Cons a rest)
  show ?case
  proof (cases "map_of d (na_url a) \<noteq> None")
    case True
    with Cons.prems(1) have loop: "scrape_loop ag rest (PyDict d) cur = (Inr v, tr')" by simp
    have "I (seen @ [a]) cur d" using Cons.prems(2) True by (rule skip)
    from Cons.IH[OF loop this] show ?thesis by simp
  next
    case False
    then have absent: "map_of d (na_url a) = None" by simp
    show ?thesis
    proof (cases "article_scraper_run ag cur (na_url a)")
      case (Inl e)
      with False Cons.prems(1) show ?thesis by simp
    next
      case resp: (Inr resp)
      show ?thesis
      proof (cases "scrape_content resp")
        case None
        with False resp Cons.prems(1)
        have loop: "scrape_loop ag rest (PyDict d) (cur @ [ScrapeCall (na_url a)]) = (Inr v, tr')"
          by simp
        have "I (seen @ [a]) (cur @ [ScrapeCall (na_url a)]) d"
          using Cons.prems(2) absent resp None by (rule miss)
        from Cons.IH[OF loop this] show ?thesis by simp
      next
        case (Some c)
        with False resp Cons.prems(1)
        have loop: "scrape_loop ag rest (PyDict (AList.update (url c) (PyScrapedArticle c) d))
                 (cur @ [ScrapeCall (na_url a)]) = (Inr v, tr')"
          by simp
        have ans: "article_scraper_run ag cur (na_url a) = Inr (Some (PyScrapedArticle c))"
          using resp scrape_content_Some[OF Some] by simp
        have "I (seen @ [a]) (cur @ [ScrapeCall (na_url a)])
                (AList.update (url c) (PyScrapedArticle c) d)"
          using Cons.prems(2) absent ans by (rule store)
        from Cons.IH[OF loop this] show ?thesis by simp
      qed
    qed
  qed
qed

lemma answered_mono:
  assumes "\<exists>a u h rest. x = PyScrapedArticle a \<and> k = url a \<and> u \<in> U
             \<and> new = h @ ScrapeCall u # rest \<and> Q h u a"
    and "U \<subseteq> U'"
  shows "\<exists>a u h rest. x = PyScrapedArticle a \<and> k = url a \<and> u \<in> U'
             \<and> new @ ext = h @ ScrapeCall u # rest \<and> Q h u a"
proof -
  from assms(1) obtain a u h rest where e: "x = PyScrapedArticle a" "k = url a" "u \<in> U"
    "new = h @ ScrapeCall u # rest" "Q h u a"
    by blast
  have "new @ ext = h @ ScrapeCall u # (rest @ ext)"
    using e(4) by simp
  moreover have "u \<in> U'" using e(3) assms(2) by blast
  ultimately show ?thesis using e(1,2,5) by blast
qed

text \<open>Every entry of the set built by the loop is an answer of the scraper.\<close>

lemma scrape_loop_entries_answered:
  assumes "scrape_loop ag as (PyDict []) tr = (Inr v, tr')"
  shows "\<exists>d new. v = PyDict d \<and> tr' = tr @ new
           \<and> (\<forall>(k, x) \<in> set d. \<exists>a u h rest.
                  x = PyScrapedArticle a \<and> k = url a \<and> u \<in> na_url ` set as
                  \<and> new = h @ ScrapeCall u # rest
                  \<and> article_scraper_run ag (tr @ h) u = Inr (Some (PyScrapedArticle a)))"
proof -
  let ?Q = "\<lambda>h u a. article_scraper_run ag (tr @ h) u = Inr (Some (PyScrapedArticle a))"
  define E where "E = (\<lambda>(seen :: news_article list) new (k :: string) x.
      \<exists>a u h rest. x = PyScrapedArticle a \<and> k = url a \<and> u \<in> na_url ` set seen
         \<and> new = h @ ScrapeCall u # rest \<and> ?Q h u a)"
  define I where "I = (\<lambda>seen cur d. \<exists>new. cur = tr @ new
      \<and> (\<forall>(k, x) \<in> set d. E seen new k x))"
  have mono: "E (seen @ [a]) (new @ ext) k x" if "E seen new k x" for seen a new ext k x
  proof -
    have sub: "na_url ` set seen \<subseteq> na_url ` set (seen @ [a])" by auto
    from answered_mono[OF that[unfolded E_def] sub, of ext] show ?thesis
      unfolding E_def .
  qed
  have init: "I [] tr []" by (simp add: I_def)
  have "\<exists>d'. v = PyDict d' \<and> I ([] @ as) tr' d'"
  proof (rule scrape_loop_invariant[OF assms, of I, OF init])
    fix seen cur d and a :: news_article
    assume "I seen cur d"
    then obtain new where new: "cur = tr @ new" and ent: "\<forall>(k, x) \<in> set d. E seen new k x"
      unfolding I_def by blast
    have "\<forall>(k, x) \<in> set d. E (seen @ [a]) new k x"
      using ent mono[of seen new _ _ a "[]"] by auto
    with new show "I (seen @ [a]) cur d"
      unfolding I_def by blast
  next
    fix seen cur d resp and a :: news_article
    assume "I seen cur d"
    then obtain new where new: "cur = tr @ new" and ent: "\<forall>(k, x) \<in> set d. E seen new k x"
      unfolding I_def by blast
    have "\<forall>(k, x) \<in> set d. E (seen @ [a]) (new @ [ScrapeCall (na_url a)]) k x"
      using ent mono by blast
    moreover have "cur @ [ScrapeCall (na_url a)] = tr @ (new @ [ScrapeCall (na_url a)])"
      using new by simp
    ultimately show "I (seen @ [a]) (cur @ [ScrapeCall (na_url a)]) d"
      unfolding I_def by blast
  next
    fix seen cur d c and a :: news_article
    assume inv: "I seen cur d"
      and ans: "article_scraper_run ag cur (na_url a) = Inr (Some (PyScrapedArticle c))"
    from inv obtain new where new: "cur = tr @ new"
      and ent: "\<forall>(k, x) \<in> set d. E seen new k x"
      unfolding I_def by blast
    have fresh: "E (seen @ [a]) (new @ [ScrapeCall (na_url a)]) (url c) (PyScrapedArticle c)"
      unfolding E_def using ans new
      by (intro exI[of _ c] exI[of _ "na_url a"] exI[of _ new] exI[of _ "[]"]) simp
    have "\<forall>(k, x) \<in> set (AList.update (url c) (PyScrapedArticle c) d).
            E (seen @ [a]) (new @ [ScrapeCall (na_url a)]) k x"
    proof (clarify)
      fix k x assume "(k, x) \<in> set (AList.update (url c) (PyScrapedArticle c) d)"
      then consider "k = url c \<and> x = PyScrapedArticle c" | "(k, x) \<in> set d"
        using update_entries[of "url c" "PyScrapedArticle c" d] by auto
      then show "E (seen @ [a]) (new @ [ScrapeCall (na_url a)]) k x"
      proof cases
        case 1
        with fresh show ?thesis by simp
      next
        case 2
        with ent have "E seen new k x" by blast
        then show ?thesis by (rule mono)
      qed
    qed
    moreover have "cur @ [ScrapeCall (na_url a)] = tr @ (new @ [ScrapeCall (na_url a)])"
      using new by simp
    ultimately show "I (seen @ [a]) (cur @ [ScrapeCall (na_url a)])
                     (AList.update (url c) (PyScrapedArticle c) d)"
      unfolding I_def by blast
  qed
  then obtain d new where "v = PyDict d" "tr' = tr @ new" "\<forall>(k, x) \<in> set d. E as new k x"
    unfolding I_def by auto
  then show ?thesis unfolding E_def by blast
qed

lemma snoc_split:
  assumes "new @ [c0] = h @ c # rest"
  shows "(rest = [] \<and> h = new \<and> c = c0) \<or> (\<exists>rest'. rest = rest' @ [c0] \<and> new = h @ c # rest')"
  using assms by (cases rest rule: rev_cases) auto

text \<open>Every article the scraper answered with during the loop has its URL among the keys.\<close>

lemma scrape_loop_answers_stored:
  assumes "scrape_loop ag as (PyDict []) tr = (Inr v, tr')"
  shows "\<exists>d new. v = PyDict d \<and> tr' = tr @ new
           \<and> (\<forall>h u rest a. new = h @ ScrapeCall u # rest
                  \<and> article_scraper_run ag (tr @ h) u = Inr (Some (PyScrapedArticle a))
                \<longrightarrow> map_of d (url a) \<noteq> None)"
proof -
  define S where "S = (\<lambda>new (d :: (string \<times> pyval) list). \<forall>h u rest a. new = h @ ScrapeCall u # rest
                  \<and> article_scraper_run ag (tr @ h) u = Inr (Some (PyScrapedArticle a))
                \<longrightarrow> map_of d (url a) \<noteq> None)"
  define I where "I = (\<lambda>(seen :: news_article list) cur d. \<exists>new. cur = tr @ new \<and> S new d)"
  have init: "I [] tr []" by (simp add: I_def S_def)
  have step: "S (new @ [ScrapeCall u0]) d'"
    if old: "S new d"
      and keys: "\<And>k. map_of d k \<noteq> None \<Longrightarrow> map_of d' k \<noteq> None"
      and last: "\<And>a. article_scraper_run ag (tr @ new) u0 = Inr (Some (PyScrapedArticle a))
                   \<Longrightarrow> map_of d' (url a) \<noteq> None"
    for new u0 d d'
    unfolding S_def
  proof (intro allI impI)
    fix h u rest a
    assume hyp: "new @ [ScrapeCall u0] = h @ ScrapeCall u # rest
       \<and> article_scraper_run ag (tr @ h) u = Inr (Some (PyScrapedArticle a))"
    from snoc_split[of new "ScrapeCall u0" h "ScrapeCall u" rest] hyp
    consider "rest = []" "h = new" "u = u0"
      | rest' where "new = h @ ScrapeCall u # rest'"
      by auto
    then show "map_of d' (url a) \<noteq> None"
    proof cases
      case 1
      with hyp show ?thesis by (intro last) simp
    next
      case 2
      with old hyp have "map_of d (url a) \<noteq> None" unfolding S_def by blast
      then show ?thesis by (rule keys)
    qed
  qed
  have "\<exists>d'. v = PyDict d' \<and> I ([] @ as) tr' d'"
  proof (rule scrape_loop_invariant[OF assms, of I, OF init])
    fix seen cur d and a :: news_article
    assume "I seen cur d"
    then show "I (seen @ [a]) cur d" unfolding I_def .
  next
    fix seen cur d resp and a :: news_article
    assume inv: "I seen cur d"
      and ans: "article_scraper_run ag cur (na_url a) = Inr resp"
      and none: "scrape_content resp = None"
    from inv obtain new where new: "cur = tr @ new" and old: "S new d"
      unfolding I_def by blast
    have "S (new @ [ScrapeCall (na_url a)]) d"
    proof (rule step[OF old])
      fix a'
      assume "article_scraper_run ag (tr @ new) (na_url a) = Inr (Some (PyScrapedArticle a'))"
      with ans new have "resp = Some (PyScrapedArticle a')" by simp
      with none show "map_of d (url a') \<noteq> None" by simp
    qed
    moreover have "cur @ [ScrapeCall (na_url a)] = tr @ (new @ [ScrapeCall (na_url a)])"
      using new by simp
    ultimately show "I (seen @ [a]) (cur @ [ScrapeCall (na_url a)]) d"
      unfolding I_def by blast
  next
    fix seen cur d c and a :: news_article
    assume inv: "I seen cur d"
      and ans: "article_scraper_run ag cur (na_url a) = Inr (Some (PyScrapedArticle c))"
    from inv obtain new where new: "cur = tr @ new" and old: "S new d"
      unfolding I_def by blast
    have "S (new @ [ScrapeCall (na_url a)]) (AList.update (url c) (PyScrapedArticle c) d)"
    proof (rule step[OF old])
      fix k assume "map_of d k \<noteq> None"
      then show "map_of (AList.update (url c) (PyScrapedArticle c) d) k \<noteq> None"
        by (simp add: update_conv')
    next
      fix a'
      assume "article_scraper_run ag (tr @ new) (na_url a) = Inr (Some (PyScrapedArticle a'))"
      with ans new have "a' = c" by simp
      then show "map_of (AList.update (url c) (PyScrapedArticle c) d) (url a') \<noteq> None"
        by (simp add: update_conv')
    qed
    moreover have "cur @ [ScrapeCall (na_url a)] = tr @ (new @ [ScrapeCall (na_url a)])"
      using new by simp
    ultimately show "I (seen @ [a]) (cur @ [ScrapeCall (na_url a)])
                     (AList.update (url c) (PyScrapedArticle c) d)"
      unfolding I_def by blast
  qed
  then obtain d new where "v = PyDict d" "tr' = tr @ new" "S new d"
    unfolding I_def by auto
  then show ?thesis unfolding S_def by blast
qed

text \<open>Every candidate is handled: its URL is a key of the set or was requested.\<close>

lemma scrape_loop_candidates_handled:
  assumes "scrape_loop ag as (PyDict []) tr = (Inr v, tr')"
  shows "\<exists>d new. v = PyDict d \<and> tr' = tr @ new
           \<and> (\<forall>c \<in> set as. map_of d (na_url c) \<noteq> None \<or> ScrapeCall (na_url c) \<in> set new)"
proof -
  define I where "I = (\<lambda>(seen :: news_article list) cur (d :: (string \<times> pyval) list).
      \<exists>new. cur = tr @ new
      \<and> (\<forall>c \<in> set seen. map_of d (na_url c) \<noteq> None \<or> ScrapeCall (na_url c) \<in> set new))"
  have init: "I [] tr []" by (simp add: I_def)
  have "\<exists>d'. v = PyDict d' \<and> I ([] @ as) tr' d'"
  proof (rule scrape_loop_invariant[OF assms, of I, OF init])
    fix seen cur d and a :: news_article
    assume "I seen cur d" and "map_of d (na_url a) \<noteq> None"
    then show "I (seen @ [a]) cur d" unfolding I_def by auto
  next
    fix seen cur d resp and a :: news_article
    assume inv: "I seen cur d"
    then obtain new where new: "cur = tr @ new"
      and old: "\<forall>c \<in> set seen. map_of d (na_url c) \<noteq> None \<or> ScrapeCall (na_url c) \<in> set new"
      unfolding I_def by blast
    have "\<forall>c \<in> set (seen @ [a]). map_of d (na_url c) \<noteq> None
             \<or> ScrapeCall (na_url c) \<in> set (new @ [ScrapeCall (na_url a)])"
      using old by auto
    moreover have "cur @ [ScrapeCall (na_url a)] = tr @ (new @ [ScrapeCall (na_url a)])"
      using new by simp
    ultimately show "I (seen @ [a]) (cur @ [ScrapeCall (na_url a)]) d"
      unfolding I_def by blast
  next
    fix seen cur d c and a :: news_article
    assume inv: "I seen cur d"
    then obtain new where new: "cur = tr @ new"
      and old: "\<forall>c \<in> set seen. map_of d (na_url c) \<noteq> None \<or> ScrapeCall (na_url c) \<in> set new"
      unfolding I_def by blast
    have "\<forall>c' \<in> set (seen @ [a]).
             map_of (AList.update (url c) (PyScrapedArticle c) d) (na_url c') \<noteq> None
             \<or> ScrapeCall (na_url c') \<in> set (new @ [ScrapeCall (na_url a)])"
      using old by (auto simp: update_conv')
    moreover have "cur @ [ScrapeCall (na_url a)] = tr @ (new @ [ScrapeCall (na_url a)])"
      using new by simp
    ultimately show "I (seen @ [a]) (cur @ [ScrapeCall (na_url a)])
                     (AList.update (url c) (PyScrapedArticle c) d)"
      unfolding I_def by blast
  qed
  then show ?thesis unfolding I_def by auto
qed

lemma scrape_loop_not_dict:
  "\<not> is_dict scraped \<Longrightarrow> scrape_loop ag as scraped tr = (Inr v, tr') \<Longrightarrow> v = scraped"
proof (induction as arbitrary: tr)
  case Nil
  then show ?case by simp
next
  case (Cons a rest)
  have noset: "\<And>k x. py_setitem scraped k x = Inl TypeError"
    using Cons.prems(1) by (cases scraped) auto
  from Cons.prems(2) Cons.IH[OF Cons.prems(1)] show ?case
    by (auto simp: noset split: sum.splits bool.splits option.splits if_splits)
qed

lemma cache_hit_dict:
  assumes "scraped_articles_from_cache s topic = Inl (PyDict d)"
  shows "d = [] \<and> session_get s ''scraped_articles'' topic = PyDict []"
  using assms
  by (auto simp: scraped_articles_from_cache_def get_cached_scraped_articles_def Let_def
      split: sum.splits if_splits)

lemma cache_miss_start:
  assumes "scraped_articles_from_cache s topic = Inr v"
  shows "v = PyDict [] \<or> \<not> is_dict v"
  using assms
  by (cases "get_cached_scraped_articles s topic")
     (auto simp: scraped_articles_from_cache_def split: sum.splits if_splits elim: py_len.elims)

text \<open>
  Claim C10. Let \<^verbatim>\<open>scrape_articles\<close> return a dict \<open>d\<close>, and let \<open>new\<close> be the calls
  it added to the trace. Every entry of \<open>d\<close> is an article that the scraper returned
  in one of these calls, made for the URL of a candidate, and its key is the URL that
  this article reports. Every article the scraper returned in one of these calls has
  the URL it reports among the keys of \<open>d\<close>. Unless the set came from the cache,
  every candidate's URL is a key of \<open>d\<close> or was requested. The scrape cache holds \<open>d\<close>
  for the topic afterwards.
\<close>

theorem scrape_articles_keyed_by_url:
  assumes "scrape_articles ag s tr topic sr usc = (Inr (PyDict d), s', tr')"
  shows "\<exists>new. tr' = tr @ new
     \<and> (\<forall>(k, x) \<in> set d. \<exists>a u h rest.
            x = PyScrapedArticle a \<and> k = url a \<and> u \<in> na_url ` set (articles sr)
            \<and> new = h @ ScrapeCall u # rest
            \<and> article_scraper_run ag (tr @ h) u = Inr (Some (PyScrapedArticle a)))
     \<and> (\<forall>h u rest a. new = h @ ScrapeCall u # rest
            \<and> article_scraper_run ag (tr @ h) u = Inr (Some (PyScrapedArticle a))
          \<longrightarrow> map_of d (url a) \<noteq> None)
     \<and> ((usc \<longrightarrow> (\<exists>v. scraped_articles_from_cache s topic = Inr v))
          \<longrightarrow> (\<forall>c \<in> set (articles sr).
                 map_of d (na_url c) \<noteq> None \<or> ScrapeCall (na_url c) \<in> set new))
     \<and> session_get s' ''scraped_articles'' topic = PyDict d"
proof (cases "if usc then scraped_articles_from_cache s topic else Inr (PyDict [])")
  case (Inl cached)
  with assms have eq: "cached = PyDict d" "s' = s" "tr' = tr"
    by (simp_all add: scrape_articles_def)
  from Inl eq have hit: "usc" "scraped_articles_from_cache s topic = Inl (PyDict d)"
    by (simp_all split: if_splits)
  from cache_hit_dict[OF hit(2)]
  have d: "d = []" and held: "session_get s ''scraped_articles'' topic = PyDict []"
    by simp_all
  show ?thesis
    using eq(2,3) d held hit by (intro exI[of _ "[]"]) simp
next
  case (Inr scraped)
  with assms have loop: "scrape_loop ag (articles sr) scraped tr = (Inr (PyDict d), tr')"
    and st: "s' = add_scraped_articles_to_cache s topic (PyDict d)"
    by (auto simp: scrape_articles_def split: prod.splits sum.splits)
  have start: "scraped = PyDict [] \<or> \<not> is_dict scraped"
    using Inr cache_miss_start[of s topic scraped] by (auto split: if_splits)
  have "scraped = PyDict []"
  proof (rule ccontr)
    assume "scraped \<noteq> PyDict []"
    with start have nd: "\<not> is_dict scraped" by simp
    from scrape_loop_not_dict[OF nd loop] have "scraped = PyDict d" by simp
    with nd show False by simp
  qed
  with loop have fresh: "scrape_loop ag (articles sr) (PyDict []) tr = (Inr (PyDict d), tr')"
    by simp
  from scrape_loop_entries_answered[OF fresh] obtain new where new: "tr' = tr @ new"
    and answered: "\<forall>(k, x) \<in> set d. \<exists>a u h rest.
            x = PyScrapedArticle a \<and> k = url a \<and> u \<in> na_url ` set (articles sr)
            \<and> new = h @ ScrapeCall u # rest
            \<and> article_scraper_run ag (tr @ h) u = Inr (Some (PyScrapedArticle a))"
    by auto
  from scrape_loop_answers_stored[OF fresh] new
  have stored: "\<forall>h u rest a. new = h @ ScrapeCall u # rest
            \<and> article_scraper_run ag (tr @ h) u = Inr (Some (PyScrapedArticle a))
          \<longrightarrow> map_of d (url a) \<noteq> None"
    by auto
  from scrape_loop_candidates_handled[OF fresh] new
  have handled: "\<forall>c \<in> set (articles sr).
                 map_of d (na_url c) \<noteq> None \<or> ScrapeCall (na_url c) \<in> set new"
    by auto
  have held: "session_get s' ''scraped_articles'' topic = PyDict d"
    using st by (simp add: add_scraped_articles_to_cache_def session_get_put_same)
  from new answered stored handled held show ?thesis
    by blast
qed

text \<open>
  The key is the URL the scraper reports, not the one requested: asked for \<open>u2\<close>, the
  scraper answers with an article whose URL is \<open>u1\<close>, and the article is stored
  under \<open>u1\<close>.
\<close>

theorem scrape_articles_keyed_by_url_witness:
  "scrape_articles agents_redirect [] [] ''T'' \<lparr>articles = [cand2]\<rparr> False
     = (Inr (PyDict [(''u1'', PyScrapedArticle art1)]),
        [(''scraped_articles'', [(''T'', PyDict [(''u1'', PyScrapedArticle art1)])])],
        [ScrapeCall ''u2''])
   \<and> na_url cand2 = ''u2''
   \<and> article_scraper_run agents_redirect [] ''u2'' = Inr (Some (PyScrapedArticle art1))
   \<and> url art1 = ''u1''
   \<and> map_of [(''u1'', PyScrapedArticle art1)] (url art1) \<noteq> None
   \<and> session_get [(''scraped_articles'', [(''T'', PyDict [(''u1'', PyScrapedArticle art1)])])]
        ''scraped_articles'' ''T'' = PyDict [(''u1'', PyScrapedArticle art1)]"
proof -
  have ev: "scrape_articles agents_redirect [] [] ''T'' \<lparr>articles = [cand2]\<rparr> False
     = (Inr (PyDict [(''u1'', PyScrapedArticle art1)]),
        [(''scraped_articles'', [(''T'', PyDict [(''u1'', PyScrapedArticle art1)])])],
        [ScrapeCall ''u2''])"
    by code_simp
  have cand: "na_url cand2 = ''u2''"
    by (simp add: cand2_def)
  have ans: "article_scraper_run agents_redirect [] ''u2'' = Inr (Some (PyScrapedArticle art1))"
    by (simp add: agents_redirect_def)
  have u: "url art1 = ''u1''"
    by (simp add: art1_def)
  from scrape_articles_keyed_by_url[OF ev] obtain new
    where new: "[ScrapeCall ''u2''] = [] @ new"
      and stored: "\<forall>h u rest a. new = h @ ScrapeCall u # rest
            \<and> article_scraper_run agents_redirect ([] @ h) u = Inr (Some (PyScrapedArticle a))
          \<longrightarrow> map_of [(''u1'', PyScrapedArticle art1)] (url a) \<noteq> None"
      and held: "session_get
          [(''scraped_articles'', [(''T'', PyDict [(''u1'', PyScrapedArticle art1)])])]
          ''scraped_articles'' ''T'' = PyDict [(''u1'', PyScrapedArticle art1)]"
    by blast
  from new have "new = [] @ ScrapeCall ''u2'' # []" by simp
  with stored ans have key: "map_of [(''u1'', PyScrapedArticle art1)] (url art1) \<noteq> None"
    by (metis append_Nil)
  from ev cand ans u key held show ?thesis by blast
qed

section \<open>Properties of the workflow\<close>

text \<open>
  Claim C5, as stated, fails: the cached post is tested for truthiness, so a cached
  post that is the empty text counts as a miss. Here the cache holds the empty text for
  the topic, and the run goes on to call the searcher three times and answers with the
  not-found message.
\<close>

theorem run_empty_cached_post_counterexample:
  "get_cached_blog_post session_empty_post ''T'' = PyStr []
   \<and> run agents_search_down session_empty_post [] ''T'' True True True
     = (([WorkflowCompletedEvent
            (PyStr ''Sorry, could not find any articles on the topic: T'')], None),
        session_empty_post,
        [SearchCall ''T'', SearchCall ''T'', SearchCall ''T''])"
  by code_simp

text \<open>
  Claim C5, amended. When \<^verbatim>\<open>use_cached_report\<close> is set and the cached post for the
  topic is truthy (a non-empty text), \<^verbatim>\<open>run\<close> yields exactly that cached post, makes no
  call to any collaborator and leaves the session state as it was.
\<close>

theorem run_cached_post_short_circuit:
  assumes "use_cached_report" and "truthy (get_cached_blog_post s topic)"
  shows "run ag s tr topic use_search_cache use_scrape_cache use_cached_report
           = (([WorkflowCompletedEvent (get_cached_blog_post s topic)], None), s, tr)"
  using assms by (simp add: run_def)

theorem run_cached_post_short_circuit_witness:
  "run agents_search_down session_with_post [] ''T'' True True True
     = (([WorkflowCompletedEvent (PyStr ''# Cached'')], None), session_with_post, [])"
proof -
  have c: "get_cached_blog_post session_with_post ''T'' = PyStr ''# Cached''"
    by code_simp
  then have "truthy (get_cached_blog_post session_with_post ''T'')" by simp
  from run_cached_post_short_circuit[OF TrueI this, of agents_search_down "[]" True True] c
  show ?thesis by simp
qed

text \<open>
  Claim C6. When the post cache does not end the run and the search stage returns
  \<^verbatim>\<open>None\<close> or a result set without candidates, \<^verbatim>\<open>run\<close> yields exactly the not-found
  message for the topic, the only calls made are at most three calls of the searcher,
  and the session state differs from the initial one at most in the search cache entry
  of the topic.
\<close>

theorem run_not_found:
  assumes "\<not> (use_cached_report \<and> truthy (get_cached_blog_post s topic))"
    and "get_search_results ag s tr topic use_search_cache 3 = (res, s1, tr1)"
    and "res = None \<or> (\<exists>r. res = Some r \<and> articles r = [])"
  shows "run ag s tr topic use_search_cache use_scrape_cache use_cached_report
           = (([WorkflowCompletedEvent
                  (PyStr (''Sorry, could not find any articles on the topic: '' @ topic))],
               None), s1, tr1)
         \<and> (\<exists>k\<le>3. tr1 = tr @ replicate k (SearchCall topic))
         \<and> (\<forall>key. key \<noteq> ''search_results'' \<longrightarrow> map_of s1 key = map_of s key)
         \<and> (\<forall>t. t \<noteq> topic \<longrightarrow>
               session_get s1 ''search_results'' t = session_get s ''search_results'' t)"
proof (intro conjI allI impI)
  show "run ag s tr topic use_search_cache use_scrape_cache use_cached_report
           = (([WorkflowCompletedEvent
                  (PyStr (''Sorry, could not find any articles on the topic: '' @ topic))],
               None), s1, tr1)"
    using assms by (auto simp: run_def not_found_message_def)
next
  show "\<exists>k\<le>3. tr1 = tr @ replicate k (SearchCall topic)"
    using get_search_results_trace[of 3 ag s tr topic use_search_cache] assms(2) by simp
next
  fix key :: string
  assume "key \<noteq> ''search_results''"
  then show "map_of s1 key = map_of s key"
    using get_search_results_state[OF assms(2)]
    by (auto simp: add_search_results_to_cache_def map_of_session_put_other)
next
  fix t
  assume "t \<noteq> topic"
  then show "session_get s1 ''search_results'' t = session_get s ''search_results'' t"
    using get_search_results_state[OF assms(2)]
    by (auto simp: add_search_results_to_cache_def session_get_put_other_topic)
qed

theorem run_not_found_witness:
  "run agents_flaky_search [] [] ''Empty Topic'' True True True
     = (([WorkflowCompletedEvent
            (PyStr ''Sorry, could not find any articles on the topic: Empty Topic'')], None),
        [(''search_results'', [(''Empty Topic'', PySearchResults \<lparr>articles = []\<rparr>)])],
        [SearchCall ''Empty Topic'', SearchCall ''Empty Topic'', SearchCall ''Empty Topic''])"
proof -
  have nohit: "\<not> (True \<and> truthy (get_cached_blog_post [] ''Empty Topic''))"
    by code_simp
  have search: "get_search_results agents_flaky_search [] [] ''Empty Topic'' True 3
     = (Some \<lparr>articles = []\<rparr>,
        [(''search_results'', [(''Empty Topic'', PySearchResults \<lparr>articles = []\<rparr>)])],
        [SearchCall ''Empty Topic'', SearchCall ''Empty Topic'', SearchCall ''Empty Topic''])"
    by code_simp
  have empty: "Some \<lparr>articles = []\<rparr> = None
      \<or> (\<exists>r. Some \<lparr>articles = []\<rparr> = Some r \<and> articles r = [])"
    by simp
  from run_not_found[OF nohit search empty, of True] show ?thesis by simp
qed

text \<open>
  Claim C8. When the run reaches the writer and the writer finishes with the content
  \<open>final\<close>, the run stores \<open>final\<close> as the post of the topic, whatever the value of
  \<^verbatim>\<open>use_cached_report\<close>; the cached post read back afterwards is \<open>final\<close>.
\<close>

theorem run_persists_post:
  assumes "\<not> (use_cached_report \<and> truthy (get_cached_blog_post s topic))"
    and "get_search_results ag s tr topic use_search_cache 3 = (Some sr, s1, tr1)"
    and "articles sr \<noteq> []"
    and "scrape_articles ag s1 tr1 topic sr use_scrape_cache = (Inr scraped, s2, tr2)"
    and "writer_input topic scraped = Inr inp"
    and "writer_run ag tr2 inp = (chunks, Inr final)"
  shows "run ag s tr topic use_search_cache use_scrape_cache use_cached_report
           = ((map WriterResponse chunks, None),
              add_blog_post_to_cache s2 topic final, tr2 @ [WriteCall inp])
         \<and> get_cached_blog_post (add_blog_post_to_cache s2 topic final) topic = final"
  using assms
  by (auto simp: run_def get_cached_blog_post_def add_blog_post_to_cache_def
      session_get_put_same)

theorem run_persists_post_witness:
  "run agents_ok [] [] ''T'' True True False
     = ((map WriterResponse [PyStr ''# Post''], None),
        add_blog_post_to_cache
          [(''search_results'', [(''T'', PySearchResults \<lparr>articles = [cand1, cand2]\<rparr>)]),
           (''scraped_articles'',
            [(''T'', PyDict
               [(''u1'', PyScrapedArticle \<lparr>url = ''u1'', title = ''t'', content = ''body''\<rparr>),
                (''u2'', PyScrapedArticle \<lparr>url = ''u2'', title = ''t'', content = ''body''\<rparr>)])])]
          ''T'' (PyStr ''# Post''),
        [SearchCall ''T'', ScrapeCall ''u1'', ScrapeCall ''u2'']
          @ [WriteCall (PyDict
               [(''topic'', PyStr ''T''),
                (''articles'', PyList
                   [PyDict [(''url'', PyStr ''u1''), (''title'', PyStr ''t''),
                            (''content'', PyStr ''body'')],
                    PyDict [(''url'', PyStr ''u2''), (''title'', PyStr ''t''),
                            (''content'', PyStr ''body'')]])])])"
proof -
  let ?sr = "\<lparr>articles = [cand1, cand2]\<rparr>"
  let ?s1 = "[(''search_results'', [(''T'', PySearchResults ?sr)])]"
  let ?scraped = "PyDict
     [(''u1'', PyScrapedArticle \<lparr>url = ''u1'', title = ''t'', content = ''body''\<rparr>),
      (''u2'', PyScrapedArticle \<lparr>url = ''u2'', title = ''t'', content = ''body''\<rparr>)]"
  let ?s2 = "[(''search_results'', [(''T'', PySearchResults ?sr)]),
              (''scraped_articles'', [(''T'', ?scraped)])]"
  let ?tr2 = "[SearchCall ''T'', ScrapeCall ''u1'', ScrapeCall ''u2'']"
  let ?inp = "PyDict
     [(''topic'', PyStr ''T''),
      (''articles'', PyList
         [PyDict [(''url'', PyStr ''u1''), (''title'', PyStr ''t''),
                  (''content'', PyStr ''body'')],
          PyDict [(''url'', PyStr ''u2''), (''title'', PyStr ''t''),
                  (''content'', PyStr ''body'')]])]"
  have nohit: "\<not> (False \<and> truthy (get_cached_blog_post [] ''T''))"
    by simp
  have search: "get_search_results agents_ok [] [] ''T'' True 3
                  = (Some ?sr, ?s1, [SearchCall ''T''])"
    by code_simp
  have found: "articles ?sr \<noteq> []"
    by simp
  have scrape: "scrape_articles agents_ok ?s1 [SearchCall ''T''] ''T'' ?sr True
                  = (Inr ?scraped, ?s2, ?tr2)"
    by code_simp
  have inp: "writer_input ''T'' ?scraped = Inr ?inp"
    by code_simp
  have written: "writer_run agents_ok ?tr2 ?inp = ([PyStr ''# Post''], Inr (PyStr ''# Post''))"
    by (simp add: agents_ok_def const_writer_def)
  from run_persists_post[OF nohit search found scrape inp written]
  show ?thesis by blast
qed

end
